theory Spec2Isabelle
  imports Main "HOL-Library.Product_Lexorder" "HOL-Library.List_Lexorder"
begin

section \<open>Characters and strings\<close>

text \<open>
  A Python \<open>str\<close> is a sequence of Unicode code points and \<open>len\<close> counts code points,
  so a character is its code point and a string is a list of them.
\<close>

type_synonym codepoint = nat
type_synonym str = "codepoint list"

definition cps :: "string \<Rightarrow> str" where
  "cps s = map of_char s"

definition is_ascii_upper :: "codepoint \<Rightarrow> bool" where
  "is_ascii_upper c = (65 \<le> c \<and> c \<le> 90)"

definition is_ascii_lower :: "codepoint \<Rightarrow> bool" where
  "is_ascii_lower c = (97 \<le> c \<and> c \<le> 122)"

definition ascii_lower :: "codepoint \<Rightarrow> codepoint" where
  "ascii_lower c = (if is_ascii_upper c then c + 32 else c)"

definition ascii_space :: "codepoint \<Rightarrow> bool" where
  "ascii_space c = ((9 \<le> c \<and> c \<le> 13) \<or> (28 \<le> c \<and> c \<le> 32))"

text \<open>
  The interpreter's character database is not part of the repository. Its rows for the
  ASCII range are fixed here (letters are \<open>A-Z\<close> and \<open>a-z\<close>, lowercasing adds 32 to a
  capital, whitespace is \<open>\t \n \v \f \r\<close>, \<open>0x1C-0x1F\<close> and the space); its rows
  beyond ASCII are a parameter of every function that consults them.
\<close>

record ucd =
  alpha_tbl :: "codepoint \<Rightarrow> bool"
  space_tbl :: "codepoint \<Rightarrow> bool"
  lower_tbl :: "str \<Rightarrow> str"

definition isalpha_ch :: "ucd \<Rightarrow> codepoint \<Rightarrow> bool" where
  "isalpha_ch U c = (if c < 128 then is_ascii_upper c \<or> is_ascii_lower c else alpha_tbl U c)"

text \<open>\<open>s.isalpha()\<close>: every character is alphabetic and there is at least one.\<close>

definition py_isalpha :: "ucd \<Rightarrow> str \<Rightarrow> bool" where
  "py_isalpha U s = (s \<noteq> [] \<and> list_all (isalpha_ch U) s)"

definition isspace_ch :: "ucd \<Rightarrow> codepoint \<Rightarrow> bool" where
  "isspace_ch U c = (if c < 128 then ascii_space c else space_tbl U c)"

text \<open>\<open>s.lower()\<close>: an all-ASCII string is lowercased character by character.\<close>

definition py_lower :: "ucd \<Rightarrow> str \<Rightarrow> str" where
  "py_lower U s = (if list_all (\<lambda>c. c < 128) s then map ascii_lower s else lower_tbl U s)"

text \<open>\<open>s.strip()\<close>: whitespace is removed from both ends.\<close>

definition py_strip :: "ucd \<Rightarrow> str \<Rightarrow> str" where
  "py_strip U s = rev (dropWhile (isspace_ch U) (rev (dropWhile (isspace_ch U) s)))"

text \<open>
  An excerpt of the database beyond ASCII, for evaluating the functions on concrete
  strings: \<open>U+00E9\<close> (e with acute), \<open>U+0130\<close> (capital I with dot above, whose lowercase
  is the two characters \<open>i\<close>, \<open>U+0307\<close>), \<open>U+0131\<close> (dotless i), \<open>U+017F\<close> (long s) and
  \<open>U+212A\<close> (the Kelvin sign, whose lowercase is \<open>k\<close>) are letters; \<open>U+0307\<close> (combining
  dot above) is not; \<open>U+00A0\<close> (no-break space) is whitespace.
\<close>

definition lower_row :: "codepoint \<Rightarrow> str" where
  "lower_row c = (if c < 128 then [ascii_lower c]
     else if c = 0x130 then [0x69, 0x307]
     else if c = 0x212A then [0x6B]
     else [c])"

definition ucd_rows :: ucd where
  "ucd_rows = \<lparr> alpha_tbl = (\<lambda>c. c = 0xE9 \<or> c = 0x130 \<or> c = 0x131 \<or> c = 0x17F \<or> c = 0x212A),
                space_tbl = (\<lambda>c. c = 0xA0),
                lower_tbl = (\<lambda>s. concat (map lower_row s)) \<rparr>"

section \<open>filter.py\<close>

datatype error = ValueError nat | IndexError

text \<open>\<open>ALPHA_RE.fullmatch(ch)\<close> for a one-character string: \<open>[A-Za-z]\<close> without flags.\<close>

definition ALPHA_RE :: "codepoint \<Rightarrow> bool" where
  "ALPHA_RE ch = (is_ascii_upper ch \<or> is_ascii_lower ch)"

definition normalize_letters :: "ucd \<Rightarrow> str \<Rightarrow> str" where
  "normalize_letters U s = concat (map (\<lambda>ch. py_lower U [ch]) (filter ALPHA_RE s))"

text \<open>The error carries the length that the message reports.\<close>

definition split_sides :: "str \<Rightarrow> error + str list" where
  "split_sides twelve =
     (if length twelve \<noteq> 12 then Inl (ValueError (length twelve))
      else Inr [take 3 twelve, take 3 (drop 3 twelve), take 3 (drop 6 twelve),
                take 3 (drop 9 twelve)])"

subsection \<open>The compiled pattern\<close>

text \<open>
  The pattern is
  \<^verbatim>\<open>^(?!.*([a-z])\1)(?!.*[e1]{2})(?!.*[e2]{2})(?!.*[e3]{2})(?!.*[e4]{2})[allowed]{3,}$\<close>
  where \<open>e1 .. e4\<close> are the four sides, each lowercased, deduplicated and sorted, and
  \<open>allowed\<close> is their union. A compiled pattern is represented by these classes and
  the \<open>IGNORECASE\<close> flag. \<open>main\<close> only ever builds it from sides made of the letters
  \<open>a-z\<close>, on which \<open>re.escape\<close> is the identity.

  Under \<open>IGNORECASE\<close> the matcher compares the simple lowercase mapping of the subject
  character with the pattern's characters; the \<open>re\<close> documentation lists what that
  means for classes of ASCII letters: besides the 52 ASCII letters, \<open>U+0130\<close> and
  \<open>U+0131\<close> match \<open>i\<close>, \<open>U+017F\<close> matches \<open>s\<close> and \<open>U+212A\<close> matches \<open>k\<close>.
  \<open>ic_key\<close> is the simple lowercase mapping of these 56 characters (\<open>U+0131\<close> and
  \<open>U+017F\<close> are their own lowercase and match through the matcher's table of
  equivalent characters); \<open>ic_letter\<close> is the ASCII letter whose class the character
  matches.
\<close>

definition ic_key :: "codepoint \<Rightarrow> codepoint option" where
  "ic_key c = (if is_ascii_upper c then Some (c + 32)
     else if is_ascii_lower c then Some c
     else if c = 0x130 then Some 0x69
     else if c = 0x212A then Some 0x6B
     else if c = 0x131 \<or> c = 0x17F then Some c
     else None)"

definition ic_letter :: "codepoint \<Rightarrow> codepoint option" where
  "ic_letter c = (case ic_key c of None \<Rightarrow> None
     | Some k \<Rightarrow> Some (if k = 0x131 then 0x69 else if k = 0x17F then 0x73 else k))"

record pattern =
  edges :: "str list"
  allowed_cls :: str
  ignorecase :: bool

definition sorted_set :: "str \<Rightarrow> str" where
  "sorted_set s = sort (remdups s)"

definition build_letterboxed_regex :: "ucd \<Rightarrow> str list \<Rightarrow> bool \<Rightarrow> pattern" where
  "build_letterboxed_regex U sides case_insensitive =
     (let norm_sides = map (\<lambda>s. sorted_set (py_lower U s)) sides;
          allowed = sorted_set (concat norm_sides)
      in \<lparr> edges = norm_sides, allowed_cls = allowed, ignorecase = case_insensitive \<rparr>)"

text \<open>A character class \<open>[S]\<close> of letters \<open>a-z\<close> against one character.\<close>

definition cls :: "bool \<Rightarrow> str \<Rightarrow> codepoint \<Rightarrow> bool" where
  "cls ic S c = (if ic then (case ic_letter c of None \<Rightarrow> False | Some l \<Rightarrow> l \<in> set S)
                 else c \<in> set S)"

text \<open>The group \<open>([a-z])\<close> and the backreference \<open>\1\<close> to the character it captured.\<close>

definition az :: "bool \<Rightarrow> codepoint \<Rightarrow> bool" where
  "az ic c = (if ic then ic_key c \<noteq> None else is_ascii_lower c)"

definition backref :: "bool \<Rightarrow> codepoint \<Rightarrow> codepoint \<Rightarrow> bool" where
  "backref ic c d = (if ic then ic_key d = ic_key c else d = c)"

text \<open>
  \<open>.*X\<close> at the start of the subject, for a subpattern \<open>X\<close> of two characters: either
  \<open>X\<close> matches here, or \<open>.\<close> takes one character, which must not be a newline, and
  the search goes on.
\<close>

fun dots_then :: "(codepoint \<Rightarrow> codepoint \<Rightarrow> bool) \<Rightarrow> str \<Rightarrow> bool" where
  "dots_then X (c # d # rest) = (X c d \<or> (c \<noteq> 10 \<and> dots_then X (d # rest)))"
| "dots_then X _ = False"

definition fullmatch :: "pattern \<Rightarrow> str \<Rightarrow> bool" where
  "fullmatch rx w =
     (let ic = ignorecase rx in
        \<not> dots_then (\<lambda>c d. az ic c \<and> backref ic c d) w
      \<and> list_all (\<lambda>edge. \<not> dots_then (\<lambda>c d. cls ic edge c \<and> cls ic edge d) w) (edges rx)
      \<and> 3 \<le> length w
      \<and> list_all (cls ic (allowed_cls rx)) w)"

subsection \<open>Reading and filtering the word list\<close>

text \<open>The word list is given as the lines of the file.\<close>

fun load_words :: "ucd \<Rightarrow> str list \<Rightarrow> str list" where
  "load_words U [] = []"
| "load_words U (line # f) =
     (let w = py_strip U line in if w = [] then load_words U f else w # load_words U f)"

text \<open>\<open>ch.lower() in allowed_set\<close>: the set holds one-character strings.\<close>

definition lower_in :: "ucd \<Rightarrow> codepoint set \<Rightarrow> codepoint \<Rightarrow> bool" where
  "lower_in U allowed_set ch = (case py_lower U [ch] of [l] \<Rightarrow> l \<in> allowed_set | _ \<Rightarrow> False)"

text \<open>The checks of the loop body on the stripped word, in the order of the source.\<close>

definition accepts :: "ucd \<Rightarrow> int \<Rightarrow> codepoint set \<Rightarrow> pattern \<Rightarrow> str \<Rightarrow> bool" where
  "accepts U min_len allowed_set rx w =
     (if w = [] then False
      else if int (length w) < min_len then False
      else if \<not> list_all (lower_in U allowed_set) (filter (isalpha_ch U) w) then False
      else if \<not> py_isalpha U w then False
      else fullmatch rx w)"

fun filter_words :: "ucd \<Rightarrow> int \<Rightarrow> codepoint set \<Rightarrow> pattern \<Rightarrow> str list \<Rightarrow> str list" where
  "filter_words U min_len allowed_set rx [] = []"
| "filter_words U min_len allowed_set rx (raw # raws) =
     (let w = py_strip U raw
      in if accepts U min_len allowed_set rx w
         then w # filter_words U min_len allowed_set rx raws
         else filter_words U min_len allowed_set rx raws)"

subsection \<open>main\<close>

datatype sort_choice = ByLength | ByAlpha

record args =
  letters :: str
  min_length :: int
  sort_by :: sort_choice
  case_sensitive :: bool

datatype message = InputError error | DuplicatesNote | Wrote nat

record run =
  exit_code :: int
  stderr :: "message list"
  stdout :: "str list"

definition sort_valid :: "ucd \<Rightarrow> sort_choice \<Rightarrow> str list \<Rightarrow> str list" where
  "sort_valid U how valid =
     (case how of
        ByLength \<Rightarrow> sort_key (\<lambda>x. (- int (length x), py_lower U x)) valid
      | ByAlpha \<Rightarrow> sort_key (\<lambda>x. py_lower U x) valid)"

definition main :: "ucd \<Rightarrow> args \<Rightarrow> str list \<Rightarrow> run" where
  "main U a wordlist =
     (let letters_norm = normalize_letters U (letters a)
      in case split_sides letters_norm of
           Inl e \<Rightarrow> \<lparr> exit_code = 2, stderr = [InputError e], stdout = [] \<rparr>
         | Inr sides \<Rightarrow>
             (let note = (if length (remdups letters_norm) \<noteq> 12 then [DuplicatesNote] else []);
                  rx = build_letterboxed_regex U sides (\<not> case_sensitive a);
                  allowed_set = set (concat sides);
                  valid = filter_words U (min_length a) allowed_set rx (load_words U wordlist);
                  valid = sort_valid U (sort_by a) valid
              in \<lparr> exit_code = 0, stderr = note @ [Wrote (length valid)], stdout = valid \<rparr>))"

section \<open>filter\_pairs.py\<close>

definition normalize_letters_pairs :: "ucd \<Rightarrow> str \<Rightarrow> str" where
  "normalize_letters_pairs U s = concat (map (\<lambda>ch. py_lower U [ch]) (filter (isalpha_ch U) s))"

fun load_words_pairs :: "ucd \<Rightarrow> str list \<Rightarrow> str list" where
  "load_words_pairs U [] = []"
| "load_words_pairs U (line # f) =
     (let w = py_strip U line
      in if w = [] then load_words_pairs U f
         else if \<not> py_isalpha U w then load_words_pairs U f
         else py_lower U w # load_words_pairs U f)"

text \<open>
  \<open>by_start\<close> is a \<open>defaultdict(list)\<close>: a missing key reads as the empty list,
  in \<open>by_start[w[0]]\<close> as in \<open>by_start.get(a_end, ())\<close>.
  \<open>w[0]\<close> and \<open>a[-1]\<close> raise \<open>IndexError\<close> on the empty string.
\<close>

definition get_list :: "('k \<rightharpoonup> 'v list) \<Rightarrow> 'k \<Rightarrow> 'v list" where
  "get_list m k = (case m k of None \<Rightarrow> [] | Some l \<Rightarrow> l)"

fun index_by_start :: "(codepoint \<rightharpoonup> str list) \<Rightarrow> str list \<Rightarrow> error + (codepoint \<rightharpoonup> str list)" where
  "index_by_start by_start [] = Inr by_start"
| "index_by_start by_start (w # ws) =
     (case w of
        [] \<Rightarrow> Inl IndexError
      | c # _ \<Rightarrow>
          index_by_start (by_start(c \<mapsto> get_list by_start c @ [w])) ws)"

fun collect_pairs ::
  "(codepoint \<rightharpoonup> str list) \<Rightarrow> codepoint set \<Rightarrow> (str \<times> str) list \<Rightarrow> str list
     \<Rightarrow> error + (str \<times> str) list" where
  "collect_pairs by_start letters_set pairs [] = Inr pairs"
| "collect_pairs by_start letters_set pairs (a # as) =
     (if a = [] then Inl IndexError
      else
        (let a_end = last a;
             cands = get_list by_start a_end
         in collect_pairs by_start letters_set
              (pairs @ map (\<lambda>b. (a, b)) (filter (\<lambda>b. letters_set \<subseteq> set a \<union> set b) cands))
              as))"

definition find_pairs :: "str list \<Rightarrow> codepoint set \<Rightarrow> error + (str \<times> str) list" where
  "find_pairs words letters_set =
     (case index_by_start Map.empty words of
        Inl e \<Rightarrow> Inl e
      | Inr by_start \<Rightarrow> collect_pairs by_start letters_set [] words)"

datatype pair_sort = ByCombinedLen | ByPairAlpha

record pairs_run =
  pairs_exit :: int
  pairs_out :: "(str \<times> str) list"

text \<open>The defensive filter of \<open>main\<close> on the loaded words.\<close>

definition sanity :: "codepoint set \<Rightarrow> str list \<Rightarrow> str list" where
  "sanity letters_set ws = filter (\<lambda>w. set w \<subseteq> letters_set \<and> 3 \<le> length w) ws"

definition sort_pairs :: "pair_sort \<Rightarrow> (str \<times> str) list \<Rightarrow> (str \<times> str) list" where
  "sort_pairs how ps =
     (case how of
        ByCombinedLen \<Rightarrow>
          sort_key (\<lambda>ab. (- (int (length (fst ab)) + int (length (snd ab))), fst ab, snd ab)) ps
      | ByPairAlpha \<Rightarrow> sort_key (\<lambda>ab. (fst ab, snd ab)) ps)"

text \<open>An exception that \<open>main\<close> does not catch ends the run: the result is the error.\<close>

definition main_pairs :: "ucd \<Rightarrow> str \<Rightarrow> pair_sort \<Rightarrow> str list \<Rightarrow> error + pairs_run" where
  "main_pairs U raw_letters how wordlist =
     (let letters_norm = normalize_letters_pairs U raw_letters
      in case split_sides letters_norm of
           Inl e \<Rightarrow> Inr \<lparr> pairs_exit = 2, pairs_out = [] \<rparr>
         | Inr sides \<Rightarrow>
             (let letters_set = set (concat sides);
                  ws = load_words_pairs U wordlist;
                  ws = sanity letters_set ws
              in case find_pairs ws letters_set of
                   Inl e \<Rightarrow> Inl e
                 | Inr pairs \<Rightarrow> Inr \<lparr> pairs_exit = 0, pairs_out = sort_pairs how pairs \<rparr>))"

section \<open>The properties, as the specification words them\<close>

text \<open>Some two consecutive elements of a list are related by \<open>P\<close>.\<close>

fun adj_ex :: "('a \<Rightarrow> 'a \<Rightarrow> bool) \<Rightarrow> 'a list \<Rightarrow> bool" where
  "adj_ex P (c # d # rest) = (P c d \<or> adj_ex P (d # rest))"
| "adj_ex P _ = False"

text \<open>Two letters lie on the same side when some side holds both.\<close>

definition same_side :: "str list \<Rightarrow> codepoint \<Rightarrow> codepoint \<Rightarrow> bool" where
  "same_side sides c d = list_ex (\<lambda>s. c \<in> set s \<and> d \<in> set s) sides"

text \<open>The four invariants of a valid word.\<close>

definition inv_length :: "int \<Rightarrow> str \<Rightarrow> bool" where
  "inv_length min_len w = (min_len \<le> int (length w))"

definition inv_letters :: "str list \<Rightarrow> str \<Rightarrow> bool" where
  "inv_letters sides w = list_all (\<lambda>c. c \<in> set (concat sides)) w"

definition inv_no_repeat :: "str \<Rightarrow> bool" where
  "inv_no_repeat w = (\<not> adj_ex (=) w)"

definition inv_no_same_side :: "str list \<Rightarrow> str \<Rightarrow> bool" where
  "inv_no_same_side sides w = (\<not> adj_ex (same_side sides) w)"

text \<open>
  The word as the comparisons see it: each character lowercased when matching ignores
  case, the word itself otherwise.
\<close>

definition lower_chars :: "ucd \<Rightarrow> str \<Rightarrow> str" where
  "lower_chars U w = concat (map (\<lambda>c. py_lower U [c]) w)"

definition folded :: "ucd \<Rightarrow> bool \<Rightarrow> str \<Rightarrow> str" where
  "folded U ic w = (if ic then lower_chars U w else w)"

text \<open>A character of the word as the pattern compares it with the letters \<open>a-z\<close>.\<close>

definition fold_ascii :: "bool \<Rightarrow> codepoint \<Rightarrow> codepoint" where
  "fold_ascii ic c = (if ic then ascii_lower c else c)"

text \<open>
  Two facts about the database beyond ASCII: the Kelvin sign is a letter, and it is the
  only character beyond ASCII whose lowercase form consists of letters \<open>a-z\<close>
  (that form is \<open>k\<close>).
\<close>

definition lower_rows_ok :: "ucd \<Rightarrow> bool" where
  "lower_rows_ok U =
     (alpha_tbl U 0x212A \<and>
      (\<forall>c. 128 \<le> c \<and> list_all is_ascii_lower (lower_tbl U [c])
            \<longrightarrow> c = 0x212A \<and> lower_tbl U [c] = [0x6B]))"

text \<open>
  Normalisation as the specification words it: every character that is not alphabetic
  is stripped, the rest is lowercased.
\<close>

definition normalizeLetters_spec :: "ucd \<Rightarrow> str \<Rightarrow> str" where
  "normalizeLetters_spec U raw = concat (map (\<lambda>ch. py_lower U [ch]) (filter (isalpha_ch U) raw))"

text \<open>The reference pair search: the full cross product, tested pair by pair.\<close>

definition find_pairs_naive :: "str list \<Rightarrow> codepoint set \<Rightarrow> (str \<times> str) list" where
  "find_pairs_naive ws letters_set =
     concat (map (\<lambda>a. map (\<lambda>b. (a, b))
                        (filter (\<lambda>b. last a = hd b \<and> letters_set \<subseteq> set a \<union> set b) ws)) ws)"

section \<open>Normalisation and the sides of a square\<close>

lemma normalize_letters_eq:
  "normalize_letters U s = map ascii_lower (filter ALPHA_RE s)"
proof -
  have low: "py_lower U [ch] = [ascii_lower ch]" if "ALPHA_RE ch" for ch
    using that by (auto simp: py_lower_def ALPHA_RE_def is_ascii_upper_def is_ascii_lower_def)
  show ?thesis
    unfolding normalize_letters_def by (induction s) (simp_all add: low)
qed

lemma normalize_letters_lower:
  "c \<in> set (normalize_letters U s) \<Longrightarrow> is_ascii_lower c"
  by (auto simp: normalize_letters_eq ALPHA_RE_def ascii_lower_def is_ascii_upper_def
      is_ascii_lower_def)

lemma split_sides_concat:
  assumes "split_sides t = Inr sides"
  shows "concat sides = t" and "length t = 12" and "length sides = 4"
proof -
  from assms have len: "length t = 12" and s: "sides = [take 3 t, take 3 (drop 3 t), take 3 (drop 6 t), take 3 (drop 9 t)]"
    by (auto simp: split_sides_def split: if_splits)
  show "length t = 12" by (rule len)
  show "length sides = 4" by (simp add: s)
  have e1: "take 3 t @ drop 3 t = t" by (rule append_take_drop_id)
  have e2: "take 3 (drop 3 t) @ drop 6 t = drop 3 t"
    using append_take_drop_id[of 3 "drop 3 t"] by simp
  have e3: "take 3 (drop 6 t) @ drop 9 t = drop 6 t"
    using append_take_drop_id[of 3 "drop 6 t"] by simp
  have e4: "take 3 (drop 9 t) = drop 9 t" using len by simp
  show "concat sides = t" by (simp add: s e4 e3 e2 e1)
qed

lemma sides_lower:
  assumes "split_sides (normalize_letters U raw) = Inr sides"
  shows "\<forall>c \<in> set (concat sides). is_ascii_lower c"
  using split_sides_concat(1)[OF assms] normalize_letters_lower by metis

lemma py_lower_id:
  assumes "\<forall>c \<in> set s. is_ascii_lower c"
  shows "py_lower U s = s"
proof -
  have "list_all (\<lambda>c. c < 128) s"
    using assms by (auto simp: list_all_iff is_ascii_lower_def)
  moreover have "map ascii_lower s = s"
    using assms by (induction s) (auto simp: ascii_lower_def is_ascii_lower_def is_ascii_upper_def)
  ultimately show ?thesis by (simp add: py_lower_def)
qed

lemma set_sorted_set: "set (sorted_set s) = set s"
  by (simp add: sorted_set_def)

lemma build_edges:
  assumes "\<forall>c \<in> set (concat sides). is_ascii_lower c"
  shows "edges (build_letterboxed_regex U sides ic) = map sorted_set sides"
proof -
  have "map (\<lambda>s. sorted_set (py_lower U s)) sides = map sorted_set sides"
    using assms by (intro map_cong refl) (simp add: py_lower_id)
  then show ?thesis by (simp add: build_letterboxed_regex_def Let_def)
qed

lemma build_allowed:
  assumes "\<forall>c \<in> set (concat sides). is_ascii_lower c"
  shows "set (allowed_cls (build_letterboxed_regex U sides ic)) = set (concat sides)"
proof -
  have "map (\<lambda>s. sorted_set (py_lower U s)) sides = map sorted_set sides"
    using assms by (intro map_cong refl) (simp add: py_lower_id)
  then show ?thesis by (simp add: build_letterboxed_regex_def Let_def set_sorted_set)
qed

lemma build_flag: "ignorecase (build_letterboxed_regex U sides ic) = ic"
  by (simp add: build_letterboxed_regex_def Let_def)

lemma dots_then_adj_ex: "10 \<notin> set w \<Longrightarrow> dots_then X w = adj_ex X w"
  by (induction X w rule: dots_then.induct) auto

lemma adj_ex_cong:
  "(\<And>c d. c \<in> set w \<Longrightarrow> d \<in> set w \<Longrightarrow> P c d = Q c d) \<Longrightarrow> adj_ex P w = adj_ex Q w"
  by (induction P w rule: adj_ex.induct) auto

lemma adj_ex_map: "adj_ex P (map f w) = adj_ex (\<lambda>c d. P (f c) (f d)) w"
  by (induction "\<lambda>c d. P (f c) (f d)" w rule: adj_ex.induct) auto

lemma adj_ex_list_ex:
  "list_ex (\<lambda>e. adj_ex (R e) w) es = adj_ex (\<lambda>c d. list_ex (\<lambda>e. R e c d) es) w"
proof (induction w rule: induct_list012)
  case (3 c d rest)
  then show ?case by (auto simp: list_ex_iff)
qed (simp_all add: list_ex_iff)


lemma fullmatch_keyed:
  assumes low: "\<forall>c \<in> set (concat sides). is_ascii_lower c"
    and nl: "\<forall>c \<in> set w. c \<noteq> 10 \<and> az ic c"
    and cl: "\<forall>c \<in> set w. \<forall>S. (\<forall>l \<in> set S. is_ascii_lower l) \<longrightarrow> cls ic S c = (f c \<in> set S)"
    and br: "\<forall>c \<in> set w. \<forall>d \<in> set w. backref ic c d = (f d = f c)"
  shows "fullmatch (build_letterboxed_regex U sides ic) w \<longleftrightarrow>
         3 \<le> length w \<and> inv_letters sides (map f w) \<and> inv_no_repeat (map f w)
           \<and> inv_no_same_side sides (map f w)"
proof -
  let ?rx = "build_letterboxed_regex U sides ic"
  have no10: "10 \<notin> set w" using nl by auto
  have dbl: "dots_then (\<lambda>c d. az ic c \<and> backref ic c d) w = adj_ex (=) (map f w)"
  proof -
    have "adj_ex (\<lambda>c d. az ic c \<and> backref ic c d) w = adj_ex (\<lambda>c d. f c = f d) w"
      by (rule adj_ex_cong) (use nl br in auto)
    then show ?thesis by (simp add: dots_then_adj_ex[OF no10] adj_ex_map)
  qed
  have side_low: "\<forall>l \<in> set (sorted_set s). is_ascii_lower l" if "s \<in> set sides" for s
    using low that by (auto simp: set_sorted_set)
  have edge: "list_all (\<lambda>edge. \<not> dots_then (\<lambda>c d. cls ic edge c \<and> cls ic edge d) w) (edges ?rx)
      = (\<not> adj_ex (same_side sides) (map f w))"
  proof -
    have "list_all (\<lambda>edge. \<not> dots_then (\<lambda>c d. cls ic edge c \<and> cls ic edge d) w) (edges ?rx)
        = (\<not> list_ex (\<lambda>s. adj_ex (\<lambda>c d. cls ic (sorted_set s) c \<and> cls ic (sorted_set s) d) w) sides)"
      by (simp add: build_edges[OF low] dots_then_adj_ex[OF no10] list_all_iff list_ex_iff)
    also have "list_ex (\<lambda>s. adj_ex (\<lambda>c d. cls ic (sorted_set s) c \<and> cls ic (sorted_set s) d) w) sides
        = adj_ex (\<lambda>c d. list_ex (\<lambda>s. cls ic (sorted_set s) c \<and> cls ic (sorted_set s) d) sides) w"
      by (rule adj_ex_list_ex)
    also have "\<dots> = adj_ex (\<lambda>c d. same_side sides (f c) (f d)) w"
    proof (rule adj_ex_cong)
      fix c d assume "c \<in> set w" "d \<in> set w"
      then have "cls ic (sorted_set s) c = (f c \<in> set s)" "cls ic (sorted_set s) d = (f d \<in> set s)"
        if "s \<in> set sides" for s
        using cl side_low[OF that] by (simp_all add: set_sorted_set)
      then show "list_ex (\<lambda>s. cls ic (sorted_set s) c \<and> cls ic (sorted_set s) d) sides
          = same_side sides (f c) (f d)"
        by (auto simp: same_side_def list_ex_iff)
    qed
    finally show ?thesis by (simp add: adj_ex_map)
  qed
  have al: "list_all (cls ic (allowed_cls ?rx)) w = inv_letters sides (map f w)"
  proof -
    have "\<forall>l \<in> set (allowed_cls ?rx). is_ascii_lower l"
      using low by (simp add: build_allowed[OF low])
    then have "cls ic (allowed_cls ?rx) c = (f c \<in> set (concat sides))" if "c \<in> set w" for c
      using cl that build_allowed[OF low, of U ic] by auto
    then show ?thesis
      by (simp add: inv_letters_def list_all_iff)
  qed
  show ?thesis
    unfolding fullmatch_def Let_def build_flag dbl edge al
    by (auto simp: inv_no_repeat_def inv_no_same_side_def)
qed


lemma precheck_iff:
  "(list_all (lower_in U A) (filter (isalpha_ch U) w) \<and> py_isalpha U w)
     = (w \<noteq> [] \<and> list_all (\<lambda>c. isalpha_ch U c \<and> lower_in U A c) w)"
  by (auto simp: py_isalpha_def list_all_iff)

lemma accepts_iff:
  "accepts U m A rx w \<longleftrightarrow>
     w \<noteq> [] \<and> m \<le> int (length w) \<and> list_all (\<lambda>c. isalpha_ch U c \<and> lower_in U A c) w
       \<and> fullmatch rx w"
  using precheck_iff[of U A w] by (auto simp: accepts_def)

lemma accepts_cs:
  assumes low: "\<forall>c \<in> set (concat sides). is_ascii_lower c"
  shows "accepts U m (set (concat sides)) (build_letterboxed_regex U sides False) w \<longleftrightarrow>
         max 3 m \<le> int (length w) \<and> inv_letters sides w \<and> inv_no_repeat w
           \<and> inv_no_same_side sides w"
proof (cases "inv_letters sides w")
  case True
  then have inA: "\<forall>c \<in> set w. c \<in> set (concat sides)"
    by (simp add: inv_letters_def list_all_iff)
  with low have wl: "\<forall>c \<in> set w. is_ascii_lower c" by blast
  have fm: "fullmatch (build_letterboxed_regex U sides False) w \<longleftrightarrow>
         3 \<le> length w \<and> inv_letters sides (map (\<lambda>c. c) w) \<and> inv_no_repeat (map (\<lambda>c. c) w)
           \<and> inv_no_same_side sides (map (\<lambda>c. c) w)"
    by (rule fullmatch_keyed[OF low])
       (use wl in \<open>auto simp: az_def cls_def backref_def is_ascii_lower_def\<close>)
  have pre: "isalpha_ch U c \<and> lower_in U (set (concat sides)) c" if "c \<in> set w" for c
  proof -
    have "is_ascii_lower c" using wl that by blast
    then have "py_lower U [c] = [c]" "isalpha_ch U c"
      by (simp_all add: py_lower_id isalpha_ch_def is_ascii_lower_def)
    then show ?thesis using inA that by (simp add: lower_in_def)
  qed
  then have "list_all (\<lambda>c. isalpha_ch U c \<and> lower_in U (set (concat sides)) c) w"
    by (simp add: list_all_iff)
  then show ?thesis
    unfolding accepts_iff fm by auto
next
  case False
  have "set (allowed_cls (build_letterboxed_regex U sides False)) = set (concat sides)"
    by (rule build_allowed[OF low])
  then have "\<not> fullmatch (build_letterboxed_regex U sides False) w"
    using False by (auto simp: fullmatch_def Let_def build_flag cls_def inv_letters_def list_all_iff)
  then show ?thesis using False by (simp add: accepts_iff)
qed

lemma char_lower_key:
  assumes H: "lower_rows_ok U"
    and A: "\<forall>l \<in> A. is_ascii_lower l"
    and ok: "list_all (\<lambda>l. l \<in> A) (py_lower U [c])"
  shows "\<exists>l. py_lower U [c] = [l] \<and> l \<in> A \<and> ic_key c = Some l \<and> isalpha_ch U c"
proof (cases "c < 128")
  case True
  then have pl: "py_lower U [c] = [ascii_lower c]" by (simp add: py_lower_def)
  with ok A have l: "ascii_lower c \<in> A" "is_ascii_lower (ascii_lower c)" by auto
  then have "ic_key c = Some (ascii_lower c)" "isalpha_ch U c"
    using True
    by (auto simp: ic_key_def ascii_lower_def isalpha_ch_def is_ascii_lower_def is_ascii_upper_def
        split: if_splits)
  with pl l show ?thesis by simp
next
  case False
  then have pl: "py_lower U [c] = lower_tbl U [c]" by (simp add: py_lower_def)
  with ok A have "list_all is_ascii_lower (lower_tbl U [c])" by (auto simp: list_all_iff)
  with H False have c: "c = 0x212A" "lower_tbl U [c] = [0x6B]" "alpha_tbl U 0x212A"
    by (auto simp: lower_rows_ok_def)
  then have "ic_key c = Some 0x6B" "isalpha_ch U c"
    by (simp_all add: ic_key_def isalpha_ch_def is_ascii_lower_def is_ascii_upper_def)
  with pl c ok show ?thesis by simp
qed

lemma accepts_ic:
  assumes low: "\<forall>c \<in> set (concat sides). is_ascii_lower c"
    and H: "lower_rows_ok U"
  shows "accepts U m (set (concat sides)) (build_letterboxed_regex U sides True) w \<longleftrightarrow>
         max 3 m \<le> int (length w) \<and> inv_letters sides (lower_chars U w)
           \<and> inv_no_repeat (lower_chars U w) \<and> inv_no_same_side sides (lower_chars U w)"
proof -
  let ?A = "set (concat sides)"
  let ?ok = "\<lambda>c. list_all (\<lambda>l. l \<in> ?A) (py_lower U [c])"
  have inv2: "inv_letters sides (lower_chars U w) = list_all ?ok w"
    by (simp add: inv_letters_def lower_chars_def list_all_iff)
  show ?thesis
  proof (cases "list_all ?ok w")
    case True
    define f where "f c = the (ic_key c)" for c
    have key: "py_lower U [c] = [f c] \<and> f c \<in> ?A \<and> ic_key c = Some (f c) \<and> isalpha_ch U c"
      if "c \<in> set w" for c
    proof -
      from True that have "?ok c" by (simp add: list_all_iff)
      from char_lower_key[OF H low this] show ?thesis by (auto simp: f_def)
    qed
    have lc: "lower_chars U w = map f w"
      unfolding lower_chars_def using key by (induction w) auto
    have flow: "is_ascii_lower (f c)" if "c \<in> set w" for c
      using key[OF that] low by blast
    have fm: "fullmatch (build_letterboxed_regex U sides True) w \<longleftrightarrow>
         3 \<le> length w \<and> inv_letters sides (map f w) \<and> inv_no_repeat (map f w)
           \<and> inv_no_same_side sides (map f w)"
    proof (rule fullmatch_keyed[OF low])
      show "\<forall>c \<in> set w. c \<noteq> 10 \<and> az True c"
      proof
        fix c assume "c \<in> set w"
        then have "ic_key c = Some (f c)" using key by blast
        moreover have "ic_key 10 = None"
          by (simp add: ic_key_def is_ascii_lower_def is_ascii_upper_def)
        ultimately show "c \<noteq> 10 \<and> az True c" by (auto simp: az_def)
      qed
      show "\<forall>c \<in> set w. \<forall>S. (\<forall>l \<in> set S. is_ascii_lower l) \<longrightarrow> cls True S c = (f c \<in> set S)"
      proof (intro ballI allI impI)
        fix c S assume c: "c \<in> set w"
        have "f c \<noteq> 0x131" "f c \<noteq> 0x17F" using flow[OF c] by (auto simp: is_ascii_lower_def)
        then have "ic_letter c = Some (f c)" using key[OF c] by (simp add: ic_letter_def)
        then show "cls True S c = (f c \<in> set S)" by (simp add: cls_def)
      qed
      show "\<forall>c \<in> set w. \<forall>d \<in> set w. backref True c d = (f d = f c)"
        using key by (simp add: backref_def)
    qed
    have pre: "list_all (\<lambda>c. isalpha_ch U c \<and> lower_in U ?A c) w"
      using key by (simp add: list_all_iff lower_in_def)
    show ?thesis
      unfolding accepts_iff fm lc using pre by auto
  next
    case False
    then obtain c where c: "c \<in> set w" "\<not> ?ok c" by (auto simp: list_all_iff)
    then have "\<not> lower_in U ?A c"
      by (auto simp: lower_in_def split: list.splits)
    with c have "\<not> list_all (\<lambda>c. isalpha_ch U c \<and> lower_in U ?A c) w"
      by (auto simp: list_all_iff)
    then show ?thesis using False by (simp add: accepts_iff inv2)
  qed
qed

lemma lower_rows_ok_ucd_rows: "lower_rows_ok ucd_rows"
  by (auto simp: lower_rows_ok_def ucd_rows_def lower_row_def is_ascii_lower_def split: if_splits)

lemmas char_defs = cps_def is_ascii_upper_def is_ascii_lower_def ascii_lower_def ALPHA_RE_def
  py_lower_def isalpha_ch_def

lemmas inv_defs = inv_length_def inv_letters_def inv_no_repeat_def inv_no_same_side_def
  same_side_def folded_def lower_chars_def

section \<open>The validity matcher\<close>

text \<open>
  Claim C1, as amended. For every square that \<open>main\<close> builds (a raw string whose
  normalisation has 12 letters) and every minimum length, the checks of the loop body
  with the compiled pattern accept a word if and only if: its length is at least the
  larger of 3 and the minimum length (the pattern itself demands three characters);
  every letter is among the letters of the square; no two consecutive letters are equal;
  no two consecutive letters lie on a common side. The letters are those of the word
  itself when matching is case-sensitive and their lowercase forms otherwise. The
  letters of the square need not be distinct.
\<close>

theorem accepts_iff_invariants:
  assumes "split_sides (normalize_letters U raw) = Inr sides" and "lower_rows_ok U"
  shows "accepts U m (set (concat sides)) (build_letterboxed_regex U sides ic) w \<longleftrightarrow>
         inv_length (max 3 m) w \<and> inv_letters sides (folded U ic w)
           \<and> inv_no_repeat (folded U ic w) \<and> inv_no_same_side sides (folded U ic w)"
proof (cases ic)
  case True
  then show ?thesis
    using accepts_ic[OF sides_lower[OF assms(1)] assms(2)]
    by (simp add: folded_def inv_length_def)
next
  case False
  then show ?thesis
    using accepts_cs[OF sides_lower[OF assms(1)]]
    by (simp add: folded_def inv_length_def)
qed

text \<open>
  The theorem at the square \<open>abc-def-ghi-JKL\<close>: \<open>ADG\<close> is accepted when case is
  ignored, \<open>face\<close> is rejected (\<open>a\<close> and \<open>c\<close> share a side).
\<close>

theorem accepts_iff_invariants_witness:
  "split_sides (normalize_letters ucd_rows (cps ''abc-def-ghi-JKL''))
     = Inr [cps ''abc'', cps ''def'', cps ''ghi'', cps ''jkl'']
   \<and> lower_rows_ok ucd_rows
   \<and> accepts ucd_rows 3 (set (concat [cps ''abc'', cps ''def'', cps ''ghi'', cps ''jkl'']))
        (build_letterboxed_regex ucd_rows [cps ''abc'', cps ''def'', cps ''ghi'', cps ''jkl''] True)
        (cps ''ADG'')
   \<and> \<not> accepts ucd_rows 3 (set (concat [cps ''abc'', cps ''def'', cps ''ghi'', cps ''jkl'']))
        (build_letterboxed_regex ucd_rows [cps ''abc'', cps ''def'', cps ''ghi'', cps ''jkl''] False)
        (cps ''face'')"
proof -
  have sq: "split_sides (normalize_letters ucd_rows (cps ''abc-def-ghi-JKL''))
     = Inr [cps ''abc'', cps ''def'', cps ''ghi'', cps ''jkl'']"
    by (simp add: split_sides_def normalize_letters_def char_defs)
  note iff = accepts_iff_invariants[OF sq lower_rows_ok_ucd_rows]
  have a: "accepts ucd_rows 3 (set (concat [cps ''abc'', cps ''def'', cps ''ghi'', cps ''jkl'']))
        (build_letterboxed_regex ucd_rows [cps ''abc'', cps ''def'', cps ''ghi'', cps ''jkl''] True)
        (cps ''ADG'')"
    unfolding iff by (simp add: inv_defs char_defs)
  have b: "\<not> accepts ucd_rows 3 (set (concat [cps ''abc'', cps ''def'', cps ''ghi'', cps ''jkl'']))
        (build_letterboxed_regex ucd_rows [cps ''abc'', cps ''def'', cps ''ghi'', cps ''jkl''] False)
        (cps ''face'')"
    unfolding iff by (simp add: inv_defs char_defs)
  show ?thesis using sq lower_rows_ok_ucd_rows a b by blast
qed

lemmas rx_defs = accepts_def fullmatch_def build_letterboxed_regex_def sorted_set_def cls_def
  az_def backref_def ic_key_def ic_letter_def lower_in_def py_isalpha_def

text \<open>
  Claim C1 as the specification states it, with ``length at least the minimum length'',
  fails for a minimum length below 3: \<open>ad\<close> satisfies the four invariants for the
  square \<open>abcdefghijkl\<close> and minimum length 2, and is rejected.
\<close>

theorem accepts_min_length_counterexample:
  "split_sides (normalize_letters ucd_rows (cps ''abcdefghijkl''))
     = Inr [cps ''abc'', cps ''def'', cps ''ghi'', cps ''jkl'']
   \<and> distinct (normalize_letters ucd_rows (cps ''abcdefghijkl''))
   \<and> inv_length 2 (cps ''ad'')
   \<and> inv_letters [cps ''abc'', cps ''def'', cps ''ghi'', cps ''jkl''] (cps ''ad'')
   \<and> inv_no_repeat (cps ''ad'')
   \<and> inv_no_same_side [cps ''abc'', cps ''def'', cps ''ghi'', cps ''jkl''] (cps ''ad'')
   \<and> \<not> accepts ucd_rows 2 (set (concat [cps ''abc'', cps ''def'', cps ''ghi'', cps ''jkl'']))
        (build_letterboxed_regex ucd_rows [cps ''abc'', cps ''def'', cps ''ghi'', cps ''jkl''] True)
        (cps ''ad'')"
  by (simp add: split_sides_def normalize_letters_def char_defs inv_defs rx_defs)

section \<open>The pair finder\<close>

lemma index_by_start_ok:
  assumes "\<forall>w \<in> set ws. w \<noteq> []"
  shows "\<exists>m'. index_by_start m ws = Inr m'
           \<and> (\<forall>c. get_list m' c = get_list m c @ filter (\<lambda>w. hd w = c) ws)"
  using assms
proof (induction ws arbitrary: m)
  case Nil
  then show ?case by simp
next
  case (Cons w ws)
  then obtain c r where w: "w = c # r" by (cases w) auto
  let ?m = "m(c \<mapsto> get_list m c @ [w])"
  from Cons obtain m' where m': "index_by_start ?m ws = Inr m'"
    "\<forall>k. get_list m' k = get_list ?m k @ filter (\<lambda>w. hd w = k) ws"
    by (metis list.set_intros(2))
  have "get_list ?m k @ filter (\<lambda>w. hd w = k) ws = get_list m k @ filter (\<lambda>w. hd w = k) (w # ws)"
    for k
    by (simp add: get_list_def w)
  with m' show ?case by (simp add: w)
qed

lemma index_by_start_empty_word:
  "[] \<in> set ws \<Longrightarrow> index_by_start m ws = Inl IndexError"
  by (induction ws arbitrary: m) (auto split: list.splits)

lemma collect_pairs_ok:
  assumes "\<forall>a \<in> set as. a \<noteq> []"
  shows "collect_pairs m L acc as =
     Inr (acc @ concat (map (\<lambda>a. map (\<lambda>b. (a, b))
            (filter (\<lambda>b. L \<subseteq> set a \<union> set b) (get_list m (last a)))) as))"
  using assms by (induction as arbitrary: acc) (simp_all add: Let_def)

lemma find_pairs_eq_naive:
  assumes ne: "\<forall>w \<in> set ws. w \<noteq> []"
  shows "find_pairs ws L = Inr (find_pairs_naive ws L)"
proof -
  from index_by_start_ok[OF ne, of Map.empty] obtain m' where
    m': "index_by_start Map.empty ws = Inr m'"
    and get: "\<And>c. get_list m' c = filter (\<lambda>w. hd w = c) ws"
    by (auto simp: get_list_def)
  have cands: "filter (\<lambda>b. L \<subseteq> set a \<union> set b) (get_list m' (last a))
      = filter (\<lambda>b. last a = hd b \<and> L \<subseteq> set a \<union> set b) ws" for a
    by (simp add: get conj_commute eq_commute)
  have "find_pairs ws L =
      Inr (concat (map (\<lambda>a. map (\<lambda>b. (a, b))
             (filter (\<lambda>b. L \<subseteq> set a \<union> set b) (get_list m' (last a)))) ws))"
    by (simp add: find_pairs_def m' collect_pairs_ok[OF ne])
  then show ?thesis
    by (simp only: cands find_pairs_naive_def)
qed

lemma set_find_pairs_naive:
  "set (find_pairs_naive ws L) =
     {(a, b). a \<in> set ws \<and> b \<in> set ws \<and> last a = hd b \<and> L \<subseteq> set a \<union> set b}"
  by (auto simp: find_pairs_naive_def)

lemma find_pairs_Inr_nonempty:
  assumes "find_pairs ws L = Inr ps"
  shows "\<forall>w \<in> set ws. w \<noteq> []"
proof (rule ccontr)
  assume "\<not> (\<forall>w \<in> set ws. w \<noteq> [])"
  then have "[] \<in> set ws" by auto
  then have "index_by_start Map.empty ws = Inl IndexError" by (rule index_by_start_empty_word)
  with assms show False by (simp add: find_pairs_def)
qed


text \<open>
  Claim C2. On a list of nonempty words, \<open>find_pairs\<close> returns the pairs of the
  cross-product reference, in the same order: the ordered pairs \<open>(A, B)\<close> of words of the
  list, \<open>A\<close> and \<open>B\<close> possibly the same word, where the last letter of \<open>A\<close> is the first
  letter of \<open>B\<close> and the two words together cover the allowed letters. The set of pairs
  is the same for any list with the same words, so it does not depend on their order.
\<close>

theorem find_pairs_refines_naive:
  assumes "\<forall>w \<in> set ws. w \<noteq> []"
  shows "find_pairs ws L = Inr (find_pairs_naive ws L)
     \<and> set (find_pairs_naive ws L)
         = {(a, b). a \<in> set ws \<and> b \<in> set ws \<and> last a = hd b \<and> L \<subseteq> set a \<union> set b}
     \<and> (\<forall>ws'. set ws' = set ws \<longrightarrow>
           (\<exists>ps'. find_pairs ws' L = Inr ps' \<and> set ps' = set (find_pairs_naive ws L)))"
proof (intro conjI allI impI)
  show "find_pairs ws L = Inr (find_pairs_naive ws L)"
    by (rule find_pairs_eq_naive[OF assms])
  show "set (find_pairs_naive ws L)
         = {(a, b). a \<in> set ws \<and> b \<in> set ws \<and> last a = hd b \<and> L \<subseteq> set a \<union> set b}"
    by (rule set_find_pairs_naive)
next
  fix ws' assume eq: "set ws' = set ws"
  with assms have "\<forall>w \<in> set ws'. w \<noteq> []" by simp
  then have "find_pairs ws' L = Inr (find_pairs_naive ws' L)" by (rule find_pairs_eq_naive)
  moreover have "set (find_pairs_naive ws' L) = set (find_pairs_naive ws L)"
    by (simp only: set_find_pairs_naive eq)
  ultimately show "\<exists>ps'. find_pairs ws' L = Inr ps' \<and> set ps' = set (find_pairs_naive ws L)"
    by blast
qed

text \<open>
  The theorem on three words, and on the same words in reverse order.
\<close>

theorem find_pairs_refines_naive_witness:
  "list_all (\<lambda>w. w \<noteq> []) [cps ''abcdefg'', cps ''ghijkla'', cps ''ab'']
   \<and> find_pairs [cps ''abcdefg'', cps ''ghijkla'', cps ''ab''] (set (cps ''abcdefghijkl''))
       = Inr [(cps ''abcdefg'', cps ''ghijkla''), (cps ''ghijkla'', cps ''abcdefg'')]
   \<and> (\<exists>ps'. find_pairs [cps ''ab'', cps ''ghijkla'', cps ''abcdefg''] (set (cps ''abcdefghijkl''))
              = Inr ps'
          \<and> set ps' = {(cps ''abcdefg'', cps ''ghijkla''), (cps ''ghijkla'', cps ''abcdefg'')})"
proof -
  have ne: "\<forall>w \<in> set [cps ''abcdefg'', cps ''ghijkla'', cps ''ab'']. w \<noteq> []"
    by (simp add: cps_def)
  note ref = find_pairs_refines_naive[OF ne, of "set (cps ''abcdefghijkl'')"]
  have naive: "find_pairs_naive [cps ''abcdefg'', cps ''ghijkla'', cps ''ab'']
        (set (cps ''abcdefghijkl''))
      = [(cps ''abcdefg'', cps ''ghijkla''), (cps ''ghijkla'', cps ''abcdefg'')]"
    by (simp add: find_pairs_naive_def cps_def)
  have perm: "set [cps ''ab'', cps ''ghijkla'', cps ''abcdefg'']
      = set [cps ''abcdefg'', cps ''ghijkla'', cps ''ab'']"
    by auto
  from ref perm naive show ?thesis using ne by (auto simp: list_all_iff)
qed

text \<open>
  Claim C3. When every word of the list uses only allowed letters, the letters of each
  returned pair are exactly the allowed letters.
\<close>

theorem find_pairs_cover_exact:
  assumes "\<forall>w \<in> set ws. set w \<subseteq> L" and "find_pairs ws L = Inr ps" and "(a, b) \<in> set ps"
  shows "set a \<union> set b = L"
proof -
  have "\<forall>w \<in> set ws. w \<noteq> []" using assms(2) by (rule find_pairs_Inr_nonempty)
  then have "find_pairs ws L = Inr (find_pairs_naive ws L)" by (rule find_pairs_eq_naive)
  with assms(2,3) have "(a, b) \<in> set (find_pairs_naive ws L)" by simp
  then have "a \<in> set ws" "b \<in> set ws" "L \<subseteq> set a \<union> set b"
    by (simp_all add: set_find_pairs_naive)
  with assms(1) show ?thesis by blast
qed

text \<open>
  The theorem on a pair of words that covers the square \<open>abcdefghijkl\<close>.
\<close>

theorem find_pairs_cover_exact_witness:
  "list_all (\<lambda>w. set w \<subseteq> set (cps ''abcdefghijkl''))
      [cps ''abcdefg'', cps ''ghijkla'', cps ''ab'']
   \<and> find_pairs [cps ''abcdefg'', cps ''ghijkla'', cps ''ab''] (set (cps ''abcdefghijkl''))
       = Inr [(cps ''abcdefg'', cps ''ghijkla''), (cps ''ghijkla'', cps ''abcdefg'')]
   \<and> (cps ''abcdefg'', cps ''ghijkla'')
       \<in> set [(cps ''abcdefg'', cps ''ghijkla''), (cps ''ghijkla'', cps ''abcdefg'')]
   \<and> set (cps ''abcdefg'') \<union> set (cps ''ghijkla'') = set (cps ''abcdefghijkl'')"
proof -
  have h1: "\<forall>w \<in> set [cps ''abcdefg'', cps ''ghijkla'', cps ''ab'']. set w \<subseteq> set (cps ''abcdefghijkl'')"
    by (simp add: cps_def)
  have h2: "find_pairs [cps ''abcdefg'', cps ''ghijkla'', cps ''ab''] (set (cps ''abcdefghijkl''))
       = Inr [(cps ''abcdefg'', cps ''ghijkla''), (cps ''ghijkla'', cps ''abcdefg'')]"
    by (simp add: find_pairs_def get_list_def cps_def)
  have h3: "(cps ''abcdefg'', cps ''ghijkla'')
       \<in> set [(cps ''abcdefg'', cps ''ghijkla''), (cps ''ghijkla'', cps ''abcdefg'')]"
    by simp
  from find_pairs_cover_exact[OF h1 h2 h3] h1 h2 h3 show ?thesis
    unfolding list_all_iff by blast
qed

lemma sanity_nonempty: "\<forall>w \<in> set (sanity L ws). w \<noteq> []"
  by (auto simp: sanity_def)

text \<open>
  Claim C9. On nonempty words \<open>find_pairs\<close> returns a list and does not reach
  \<open>IndexError\<close>; on the empty list it returns the empty list; the words that pass the
  defensive filter of \<open>main\<close> have three letters or more, so the call in \<open>main\<close> returns.
\<close>

theorem find_pairs_total:
  "((\<forall>w \<in> set ws. w \<noteq> []) \<longrightarrow> (\<exists>ps. find_pairs ws L = Inr ps))
   \<and> find_pairs [] L = Inr []
   \<and> (\<exists>ps. find_pairs (sanity L ws) L = Inr ps)"
proof (intro conjI impI)
  assume "\<forall>w \<in> set ws. w \<noteq> []"
  then show "\<exists>ps. find_pairs ws L = Inr ps" using find_pairs_eq_naive by blast
next
  show "find_pairs [] L = Inr []" by (simp add: find_pairs_def)
next
  show "\<exists>ps. find_pairs (sanity L ws) L = Inr ps"
    using find_pairs_eq_naive[OF sanity_nonempty] by blast
qed

text \<open>
  The theorem on two words; with an empty word in the list the error is reached.
\<close>

theorem find_pairs_total_witness:
  "list_all (\<lambda>w. w \<noteq> []) [cps ''ab'', cps ''ba'']
   \<and> (\<exists>ps. find_pairs [cps ''ab'', cps ''ba''] (set (cps ''ab'')) = Inr ps)
   \<and> find_pairs [cps ''ab'', [], cps ''ba''] (set (cps ''ab'')) = Inl IndexError"
proof -
  have ne: "\<forall>w \<in> set [cps ''ab'', cps ''ba'']. w \<noteq> []" by (simp add: cps_def)
  have "\<exists>ps. find_pairs [cps ''ab'', cps ''ba''] (set (cps ''ab'')) = Inr ps"
    using find_pairs_total[of "[cps ''ab'', cps ''ba'']" "set (cps ''ab'')"] ne by blast
  moreover have "find_pairs [cps ''ab'', [], cps ''ba''] (set (cps ''ab'')) = Inl IndexError"
    by (simp add: find_pairs_def get_list_def cps_def)
  ultimately show ?thesis using ne unfolding list_all_iff by blast
qed

lemma main_pairs_total: "\<exists>r. main_pairs U raw how wl = Inr r"
proof (cases "split_sides (normalize_letters_pairs U raw)")
  case (Inl e)
  then show ?thesis by (simp add: main_pairs_def)
next
  case (Inr sides)
  have "find_pairs (sanity (set (concat sides)) (load_words_pairs U wl)) (set (concat sides))
      = Inr (find_pairs_naive (sanity (set (concat sides)) (load_words_pairs U wl)) (set (concat sides)))"
    by (rule find_pairs_eq_naive[OF sanity_nonempty])
  with Inr show ?thesis by (simp add: main_pairs_def Let_def)
qed

lemma set_sort_pairs: "set (sort_pairs how ps) = set ps"
  by (cases how) (simp_all add: sort_pairs_def)

text \<open>
  In \<open>main\<close> the precondition of claim C3 holds by the defensive filter: every pair that
  a successful run puts out has exactly the letters of the normalised square.
\<close>

lemma main_pairs_cover_exact:
  assumes "main_pairs U raw how wl = Inr r" and "pairs_exit r = 0" and "(x, y) \<in> set (pairs_out r)"
  shows "set x \<union> set y = set (normalize_letters_pairs U raw)"
proof (cases "split_sides (normalize_letters_pairs U raw)")
  case (Inl e)
  with assms(1,2) show ?thesis by (auto simp: main_pairs_def)
next
  case (Inr sides)
  let ?L = "set (concat sides)"
  let ?ws = "sanity ?L (load_words_pairs U wl)"
  have L: "?L = set (normalize_letters_pairs U raw)"
    using split_sides_concat(1)[OF Inr] by simp
  have sub: "\<forall>w \<in> set ?ws. set w \<subseteq> ?L" by (simp add: sanity_def)
  have fp: "find_pairs ?ws ?L = Inr (find_pairs_naive ?ws ?L)"
    by (rule find_pairs_eq_naive[OF sanity_nonempty])
  with Inr assms(1) have "pairs_out r = sort_pairs how (find_pairs_naive ?ws ?L)"
    by (auto simp: main_pairs_def Let_def)
  with assms(3) have "(x, y) \<in> set (find_pairs_naive ?ws ?L)" by (simp add: set_sort_pairs)
  then have "x \<in> set ?ws" "y \<in> set ?ws" "?L \<subseteq> set x \<union> set y"
    by (simp_all add: set_find_pairs_naive)
  with sub L show ?thesis by blast
qed

section \<open>Filtering the word list\<close>

lemma py_strip_idem: "py_strip U (py_strip U s) = py_strip U s"
proof -
  let ?P = "isspace_ch U"
  let ?t = "dropWhile ?P s"
  let ?u = "rev (dropWhile ?P (rev ?t))"
  have front: "dropWhile ?P ?u = ?u"
  proof (cases "?u = []")
    case True
    show ?thesis by (simp only: True dropWhile.simps)
  next
    case False
    have "rev ?t = takeWhile ?P (rev ?t) @ dropWhile ?P (rev ?t)" by simp
    then have "?t = ?u @ rev (takeWhile ?P (rev ?t))"
      by (metis rev_append rev_rev_ident)
    with False have hd: "hd ?u = hd ?t" and "?t \<noteq> []"
      by (metis hd_append2, metis append_is_Nil_conv)
    then have "\<not> ?P (hd ?t)" using hd_dropWhile by blast
    with hd False show ?thesis by (cases ?u) auto
  qed
  show ?thesis
    unfolding py_strip_def by (simp only: front) simp
qed

lemma filter_words_eq:
  "filter_words U m A rx raws = filter (accepts U m A rx) (map (py_strip U) raws)"
  by (induction raws) (simp_all add: Let_def)

lemma load_words_eq: "load_words U ls = filter (\<lambda>w. w \<noteq> []) (map (py_strip U) ls)"
  by (induction ls) (simp_all add: Let_def)

lemma load_words_pairs_eq:
  "load_words_pairs U ls = map (py_lower U) (filter (py_isalpha U) (map (py_strip U) ls))"
  by (induction ls) (auto simp: Let_def py_isalpha_def)

lemma filter_words_fixed:
  assumes "\<forall>w \<in> set ws. py_strip U w = w \<and> accepts U m A rx w"
  shows "filter_words U m A rx ws = ws"
  using assms by (induction ws) (simp_all add: Let_def)

lemma filter_words_out:
  "w \<in> set (filter_words U m A rx raws) \<Longrightarrow> py_strip U w = w \<and> accepts U m A rx w"
  by (auto simp: filter_words_eq py_strip_idem)

lemma not_alpha_rejected:
  "\<not> list_all (isalpha_ch U) w \<Longrightarrow> \<not> accepts U m A rx w"
  by (auto simp: accepts_iff list_all_iff)

lemma filter_words_drop_line:
  assumes "\<not> list_all (isalpha_ch U) (py_strip U line)"
  shows "filter_words U m A rx (load_words U (pre @ line # post))
       = filter_words U m A rx (load_words U (pre @ post))"
  using not_alpha_rejected[OF assms] not_alpha_rejected[of U "py_strip U line"] assms
  by (simp add: filter_words_eq load_words_eq py_strip_idem)


text \<open>
  Claim C6. A line whose stripped word has a character that is not alphabetic is
  rejected by the checks of the loop body whatever the minimum length, the allowed
  letters and the pattern are; the whole run of \<open>main\<close> (exit code, messages, output) is
  the same as on the word list without that line; and the word list that the pair finder
  loads is the same as without that line.
\<close>

theorem non_alphabetic_word_excluded:
  assumes "\<not> list_all (isalpha_ch U) (py_strip U line)"
  shows "\<not> accepts U m A rx (py_strip U line)
     \<and> main U a (pre @ line # post) = main U a (pre @ post)
     \<and> load_words_pairs U (pre @ line # post) = load_words_pairs U (pre @ post)"
proof (intro conjI)
  show "\<not> accepts U m A rx (py_strip U line)"
    by (rule not_alpha_rejected[OF assms])
  show "main U a (pre @ line # post) = main U a (pre @ post)"
    by (simp only: main_def filter_words_drop_line[OF assms])
  show "load_words_pairs U (pre @ line # post) = load_words_pairs U (pre @ post)"
    using assms by (simp add: load_words_pairs_eq py_isalpha_def)
qed

text \<open>
  The theorem on the word \<open>co-op\<close> between two other words.
\<close>

theorem non_alphabetic_word_excluded_witness:
  "\<not> list_all (isalpha_ch ucd_rows) (py_strip ucd_rows (cps ''co-op''))
   \<and> main ucd_rows \<lparr>letters = cps ''cop-xyz-abd-efg'', min_length = 3, sort_by = ByLength,
                      case_sensitive = False\<rparr> [cps ''cab'', cps ''co-op'', cps ''dog'']
     = main ucd_rows \<lparr>letters = cps ''cop-xyz-abd-efg'', min_length = 3, sort_by = ByLength,
                      case_sensitive = False\<rparr> [cps ''cab'', cps ''dog'']
   \<and> load_words_pairs ucd_rows [cps ''cab'', cps ''co-op'', cps ''dog'']
     = [cps ''cab'', cps ''dog'']"
proof -
  have h: "\<not> list_all (isalpha_ch ucd_rows) (py_strip ucd_rows (cps ''co-op''))"
    by (simp add: py_strip_def isspace_ch_def ascii_space_def char_defs)
  note ex = non_alphabetic_word_excluded[OF h, of _ _ _ _ "[cps ''cab'']" "[cps ''dog'']"]
  have "load_words_pairs ucd_rows ([cps ''cab''] @ [cps ''dog'']) = [cps ''cab'', cps ''dog'']"
    by (simp add: py_strip_def isspace_ch_def ascii_space_def py_isalpha_def char_defs)
  with ex h show ?thesis by simp
qed

lemma sort_key_twice: "sort_key f (sort_key f xs) = sort_key f xs"
  by (rule sort_key_id_if_sorted) (rule sorted_sort_key)

lemma sort_valid_twice: "sort_valid U how (sort_valid U how v) = sort_valid U how v"
  by (cases how) (simp_all add: sort_valid_def sort_key_twice)

lemma set_sort_valid: "set (sort_valid U how v) = set v"
  by (cases how) (simp_all add: sort_valid_def)

lemma load_words_fixed:
  assumes "\<forall>w \<in> set ws. py_strip U w = w \<and> w \<noteq> []"
  shows "load_words U ws = ws"
  using assms by (induction ws) (simp_all add: Let_def)

text \<open>
  Running \<open>main\<close> on its own output, with the same arguments, gives the same run: the kept
  words are loaded unchanged, kept again, and already in the requested order.
\<close>

lemma main_rerun: "main U a (stdout (main U a wl)) = main U a wl"
proof (cases "split_sides (normalize_letters U (letters a))")
  case (Inl e)
  then show ?thesis by (simp add: main_def)
next
  case (Inr sides)
  let ?rx = "build_letterboxed_regex U sides (\<not> case_sensitive a)"
  let ?A = "set (concat sides)"
  let ?V = "filter_words U (min_length a) ?A ?rx (load_words U wl)"
  let ?S = "sort_valid U (sort_by a) ?V"
  have out: "stdout (main U a wl) = ?S"
    using Inr by (simp add: main_def Let_def)
  have el: "\<forall>w \<in> set ?S. py_strip U w = w \<and> accepts U (min_length a) ?A ?rx w"
    using filter_words_out by (simp add: set_sort_valid)
  then have ne: "\<forall>w \<in> set ?S. py_strip U w = w \<and> w \<noteq> []"
    by (auto simp: accepts_def)
  have "filter_words U (min_length a) ?A ?rx (load_words U ?S) = ?S"
    by (simp only: load_words_fixed[OF ne] filter_words_fixed[OF el])
  then show ?thesis
    unfolding out using Inr by (simp add: main_def Let_def sort_valid_twice)
qed

text \<open>
  Claim C7. Filtering the filtered list again, with the same minimum length, allowed
  letters and pattern, gives the same list; and \<open>main\<close>, run on its own output with the
  same square, minimum length, order and case flag, reproduces its run.
\<close>

theorem filter_words_idempotent:
  "filter_words U m A rx (filter_words U m A rx L) = filter_words U m A rx L
   \<and> main U a (stdout (main U a wl)) = main U a wl"
proof
  show "filter_words U m A rx (filter_words U m A rx L) = filter_words U m A rx L"
    by (rule filter_words_fixed) (simp add: filter_words_out)
  show "main U a (stdout (main U a wl)) = main U a wl"
    by (rule main_rerun)
qed


section \<open>Squares: normalisation, errors, case and shared letters\<close>

text \<open>
  Claim C5, as amended. \<open>normalize_letters\<close> keeps the characters \<open>A-Z\<close> and \<open>a-z\<close> of the
  raw string, in order, lowercased, and drops every other character, a letter beyond
  ASCII included. When the result does not have 12 characters, \<open>split_sides\<close> raises the
  error that reports the length found, and \<open>main\<close> reports that error, returns exit code
  2 and produces no output.
\<close>

theorem invalid_square_aborts:
  "normalize_letters U (letters a) = map ascii_lower (filter ALPHA_RE (letters a))
   \<and> (length (normalize_letters U (letters a)) \<noteq> 12 \<longrightarrow>
        split_sides (normalize_letters U (letters a))
          = Inl (ValueError (length (normalize_letters U (letters a))))
      \<and> main U a wl = \<lparr> exit_code = 2,
                        stderr = [InputError (ValueError (length (normalize_letters U (letters a))))],
                        stdout = [] \<rparr>)"
  by (simp add: normalize_letters_eq main_def split_sides_def)

text \<open>
  The theorem on a raw string with six letters.
\<close>

theorem invalid_square_aborts_witness:
  "normalize_letters ucd_rows (cps ''ab-CD e9f'') = cps ''abcdef''
   \<and> split_sides (cps ''abcdef'') = Inl (ValueError 6)
   \<and> main ucd_rows \<lparr>letters = cps ''ab-CD e9f'', min_length = 3, sort_by = ByLength,
                      case_sensitive = False\<rparr> [cps ''cab'']
       = \<lparr> exit_code = 2, stderr = [InputError (ValueError 6)], stdout = [] \<rparr>"
proof -
  let ?a = "\<lparr>letters = cps ''ab-CD e9f'', min_length = 3, sort_by = ByLength,
              case_sensitive = False\<rparr>"
  have n0: "normalize_letters ucd_rows (cps ''ab-CD e9f'') = cps ''abcdef''"
    by (simp add: normalize_letters_def char_defs)
  then have n: "normalize_letters ucd_rows (letters ?a) = cps ''abcdef''" by simp
  have len: "length (cps ''abcdef'') = 6" by (simp add: cps_def)
  have ne: "length (normalize_letters ucd_rows (letters ?a)) \<noteq> 12"
    unfolding n len by simp
  note t = invalid_square_aborts[of ucd_rows ?a "[cps ''cab'']", THEN conjunct2, THEN mp, OF ne]
  from n0 t[unfolded n len] show ?thesis by blast
qed

text \<open>
  Claim C5 as the specification states it, with every alphabetic character kept, fails
  on a raw string with a letter beyond ASCII: \<open>U+00E9\<close> followed by \<open>abcdefghijkl\<close> has 13
  alphabetic characters, so the stated normalisation has length 13 and the square should
  be refused; \<open>normalize_letters\<close> drops \<open>U+00E9\<close>, finds 12 letters, and \<open>main\<close> builds
  the square and ends with exit code 0.
\<close>

theorem non_ascii_letter_square_counterexample:
  "isalpha_ch ucd_rows 0xE9
   \<and> normalizeLetters_spec ucd_rows (0xE9 # cps ''abcdefghijkl'') = 0xE9 # cps ''abcdefghijkl''
   \<and> length (normalizeLetters_spec ucd_rows (0xE9 # cps ''abcdefghijkl'')) = 13
   \<and> normalize_letters ucd_rows (0xE9 # cps ''abcdefghijkl'') = cps ''abcdefghijkl''
   \<and> split_sides (normalize_letters ucd_rows (0xE9 # cps ''abcdefghijkl''))
       = Inr [cps ''abc'', cps ''def'', cps ''ghi'', cps ''jkl'']
   \<and> exit_code (main ucd_rows \<lparr>letters = 0xE9 # cps ''abcdefghijkl'', min_length = 3,
        sort_by = ByLength, case_sensitive = False\<rparr> []) = 0"
proof -
  have a: "isalpha_ch ucd_rows 0xE9" by (simp add: isalpha_ch_def ucd_rows_def)
  have sp: "normalizeLetters_spec ucd_rows (0xE9 # cps ''abcdefghijkl'')
      = 0xE9 # cps ''abcdefghijkl''"
    by (simp add: normalizeLetters_spec_def ucd_rows_def lower_row_def char_defs)
  have len: "length (0xE9 # cps ''abcdefghijkl'') = 13" by (simp add: cps_def)
  have n: "normalize_letters ucd_rows (0xE9 # cps ''abcdefghijkl'') = cps ''abcdefghijkl''"
    by (simp add: normalize_letters_def char_defs)
  have sq: "split_sides (cps ''abcdefghijkl'')
      = Inr [cps ''abc'', cps ''def'', cps ''ghi'', cps ''jkl'']"
    by (simp add: split_sides_def cps_def)
  have ex: "exit_code (main ucd_rows \<lparr>letters = 0xE9 # cps ''abcdefghijkl'', min_length = 3,
        sort_by = ByLength, case_sensitive = False\<rparr> []) = 0"
    by (simp add: main_def n sq Let_def)
  from a sp len n sq ex show ?thesis by simp
qed

lemma fullmatch_allowed:
  assumes low: "\<forall>c \<in> set (concat sides). is_ascii_lower c"
    and fm: "fullmatch (build_letterboxed_regex U sides ic) w"
  shows "\<forall>c \<in> set w. fold_ascii ic c \<in> set (concat sides) \<or> (ic \<and> 128 \<le> c)"
    and "10 \<notin> set w"
proof -
  have al: "list_all (cls ic (allowed_cls (build_letterboxed_regex U sides ic))) w"
    using fm by (simp add: fullmatch_def Let_def build_flag)
  have A: "set (allowed_cls (build_letterboxed_regex U sides ic)) = set (concat sides)"
    by (rule build_allowed[OF low])
  show "\<forall>c \<in> set w. fold_ascii ic c \<in> set (concat sides) \<or> (ic \<and> 128 \<le> c)"
  proof
    fix c assume "c \<in> set w"
    with al have c: "cls ic (allowed_cls (build_letterboxed_regex U sides ic)) c"
      by (simp add: list_all_iff)
    show "fold_ascii ic c \<in> set (concat sides) \<or> (ic \<and> 128 \<le> c)"
    proof (cases ic)
      case False
      with c A show ?thesis by (simp add: cls_def fold_ascii_def)
    next
      case True
      with c A obtain l where l: "ic_letter c = Some l" "l \<in> set (concat sides)"
        by (auto simp: cls_def split: option.splits)
      show ?thesis
      proof (cases "c < 128")
        case True
        with l have "l = ascii_lower c"
          by (auto simp: ic_letter_def ic_key_def ascii_lower_def split: if_splits)
        with l \<open>ic\<close> show ?thesis by (simp add: fold_ascii_def)
      next
        case False
        with \<open>ic\<close> show ?thesis by simp
      qed
    qed
  qed
  show "10 \<notin> set w"
  proof
    assume "10 \<in> set w"
    with al have c: "cls ic (allowed_cls (build_letterboxed_regex U sides ic)) 10"
      by (simp add: list_all_iff)
    have "ic_letter 10 = None"
      by (simp add: ic_letter_def ic_key_def is_ascii_lower_def is_ascii_upper_def)
    with c A have "10 \<in> set (concat sides)"
      by (simp add: cls_def split: if_splits)
    with low have "is_ascii_lower 10" by blast
    then show False by (simp add: is_ascii_lower_def)
  qed
qed







lemma adj_ex_mono: "adj_ex P w \<Longrightarrow> (\<And>c d. P c d \<Longrightarrow> Q c d) \<Longrightarrow> adj_ex Q w"
  by (induction P w rule: adj_ex.induct) auto

lemma fold_in_side_cls:
  assumes low: "\<forall>l \<in> set s. is_ascii_lower l" and c: "fold_ascii ic c \<in> set s"
  shows "cls ic (sorted_set s) c"
proof (cases ic)
  case False
  with c show ?thesis by (simp add: cls_def fold_ascii_def set_sorted_set)
next
  case True
  with c have in_s: "ascii_lower c \<in> set s" by (simp add: fold_ascii_def)
  with low have "is_ascii_lower (ascii_lower c)" by blast
  then have "ic_letter c = Some (ascii_lower c)"
    by (auto simp: ic_letter_def ic_key_def ascii_lower_def is_ascii_lower_def is_ascii_upper_def
        split: if_splits)
  with True in_s show ?thesis by (simp add: cls_def set_sorted_set)
qed

lemma same_side_rejected:
  assumes low: "\<forall>c \<in> set (concat sides). is_ascii_lower c"
    and adj: "adj_ex (\<lambda>c d. same_side sides (fold_ascii ic c) (fold_ascii ic d)) w"
  shows "\<not> fullmatch (build_letterboxed_regex U sides ic) w"
proof
  assume fm: "fullmatch (build_letterboxed_regex U sides ic) w"
  have no10: "10 \<notin> set w" by (rule fullmatch_allowed(2)[OF low fm])
  from adj have "list_ex (\<lambda>s. adj_ex (\<lambda>c d. fold_ascii ic c \<in> set s \<and> fold_ascii ic d \<in> set s) w) sides"
    by (simp add: same_side_def adj_ex_list_ex)
  then obtain s where s: "s \<in> set sides"
    and a: "adj_ex (\<lambda>c d. fold_ascii ic c \<in> set s \<and> fold_ascii ic d \<in> set s) w"
    by (auto simp: list_ex_iff)
  from s low have slow: "\<forall>l \<in> set s. is_ascii_lower l" by auto
  have "adj_ex (\<lambda>c d. cls ic (sorted_set s) c \<and> cls ic (sorted_set s) d) w"
    by (rule adj_ex_mono[OF a]) (simp add: fold_in_side_cls[OF slow])
  then have "dots_then (\<lambda>c d. cls ic (sorted_set s) c \<and> cls ic (sorted_set s) d) w"
    by (simp add: dots_then_adj_ex[OF no10])
  moreover from fm s have "\<not> dots_then (\<lambda>c d. cls ic (sorted_set s) c \<and> cls ic (sorted_set s) d) w"
    by (simp add: fullmatch_def Let_def build_flag build_edges[OF low] list_all_iff)
  ultimately show False by contradiction
qed

text \<open>
  Claim C4. When the 12 normalised letters are not pairwise distinct (as when a letter
  appears on more than one side), \<open>split_sides\<close> succeeds, \<open>main\<close> emits the note about
  duplicates and ends with exit code 0, and the pattern rejects every word with two
  consecutive letters that share a side, whichever side that is.
\<close>

theorem shared_letter_square_rejects_same_side:
  assumes len: "length (normalize_letters U (letters a)) = 12"
    and dup: "\<not> distinct (normalize_letters U (letters a))"
  shows "\<exists>sides. split_sides (normalize_letters U (letters a)) = Inr sides
     \<and> exit_code (main U a wl) = 0
     \<and> DuplicatesNote \<in> set (stderr (main U a wl))
     \<and> (\<forall>ic w. adj_ex (\<lambda>c d. same_side sides (fold_ascii ic c) (fold_ascii ic d)) w \<longrightarrow>
           \<not> fullmatch (build_letterboxed_regex U sides ic) w
         \<and> \<not> accepts U m (set (concat sides)) (build_letterboxed_regex U sides ic) w)"
proof -
  from len obtain sides where sides: "split_sides (normalize_letters U (letters a)) = Inr sides"
    by (simp add: split_sides_def)
  have "length (remdups (normalize_letters U (letters a))) \<noteq> length (normalize_letters U (letters a))"
    using dup by simp
  with len have adv: "length (remdups (normalize_letters U (letters a))) \<noteq> 12" by simp
  have run: "exit_code (main U a wl) = 0" "DuplicatesNote \<in> set (stderr (main U a wl))"
    using sides adv by (simp_all add: main_def Let_def)
  have rej: "\<not> fullmatch (build_letterboxed_regex U sides ic) w
         \<and> \<not> accepts U m (set (concat sides)) (build_letterboxed_regex U sides ic) w"
    if "adj_ex (\<lambda>c d. same_side sides (fold_ascii ic c) (fold_ascii ic d)) w" for ic w
    using same_side_rejected[OF sides_lower[OF sides] that] by (simp add: accepts_iff)
  from sides run rej show ?thesis by blast
qed

text \<open>
  The theorem on the square \<open>abc-ade-fgh-ijk\<close>, where \<open>a\<close> lies on the first and on the
  second side: \<open>GAD\<close> is rejected through the second side, \<open>gab\<close> through the first.
\<close>

theorem shared_letter_square_rejects_same_side_witness:
  "length (normalize_letters ucd_rows (cps ''abc-ade-fgh-ijk'')) = 12
   \<and> \<not> distinct (normalize_letters ucd_rows (cps ''abc-ade-fgh-ijk''))
   \<and> split_sides (normalize_letters ucd_rows (cps ''abc-ade-fgh-ijk''))
       = Inr [cps ''abc'', cps ''ade'', cps ''fgh'', cps ''ijk'']
   \<and> exit_code (main ucd_rows \<lparr>letters = cps ''abc-ade-fgh-ijk'', min_length = 3,
        sort_by = ByLength, case_sensitive = False\<rparr> [cps ''gad'']) = 0
   \<and> DuplicatesNote \<in> set (stderr (main ucd_rows \<lparr>letters = cps ''abc-ade-fgh-ijk'',
        min_length = 3, sort_by = ByLength, case_sensitive = False\<rparr> [cps ''gad'']))
   \<and> \<not> fullmatch (build_letterboxed_regex ucd_rows
          [cps ''abc'', cps ''ade'', cps ''fgh'', cps ''ijk''] True) (cps ''GAD'')
   \<and> \<not> fullmatch (build_letterboxed_regex ucd_rows
          [cps ''abc'', cps ''ade'', cps ''fgh'', cps ''ijk''] False) (cps ''gab'')"
proof -
  let ?a = "\<lparr>letters = cps ''abc-ade-fgh-ijk'', min_length = 3, sort_by = ByLength,
              case_sensitive = False\<rparr>"
  have n: "normalize_letters ucd_rows (cps ''abc-ade-fgh-ijk'') = cps ''abcadefghijk''"
    by (simp add: normalize_letters_def char_defs)
  have len: "length (normalize_letters ucd_rows (letters ?a)) = 12"
    by (simp add: n) (simp add: cps_def)
  have dup: "\<not> distinct (normalize_letters ucd_rows (letters ?a))"
    by (simp add: n) (simp add: cps_def)
  have sq: "split_sides (normalize_letters ucd_rows (cps ''abc-ade-fgh-ijk''))
       = Inr [cps ''abc'', cps ''ade'', cps ''fgh'', cps ''ijk'']"
    by (simp add: n) (simp add: split_sides_def cps_def)
  from shared_letter_square_rejects_same_side[OF len dup, of "[cps ''gad'']" 3]
  obtain sides where s: "split_sides (normalize_letters ucd_rows (letters ?a)) = Inr sides"
    and run: "exit_code (main ucd_rows ?a [cps ''gad'']) = 0"
      "DuplicatesNote \<in> set (stderr (main ucd_rows ?a [cps ''gad'']))"
    and rej: "\<And>ic w. adj_ex (\<lambda>c d. same_side sides (fold_ascii ic c) (fold_ascii ic d)) w \<Longrightarrow>
           \<not> fullmatch (build_letterboxed_regex ucd_rows sides ic) w"
    by blast
  from s sq have sides: "sides = [cps ''abc'', cps ''ade'', cps ''fgh'', cps ''ijk'']" by simp
  have r1: "\<not> fullmatch (build_letterboxed_regex ucd_rows
          [cps ''abc'', cps ''ade'', cps ''fgh'', cps ''ijk''] True) (cps ''GAD'')"
    unfolding sides[symmetric]
    by (rule rej) (simp add: sides same_side_def fold_ascii_def char_defs)
  have r2: "\<not> fullmatch (build_letterboxed_regex ucd_rows
          [cps ''abc'', cps ''ade'', cps ''fgh'', cps ''ijk''] False) (cps ''gab'')"
    unfolding sides[symmetric]
    by (rule rej) (simp add: sides same_side_def fold_ascii_def char_defs)
  from len dup sq run r1 r2 show ?thesis by simp
qed

text \<open>
  The \<open>normalize_letters\<close> of \<open>filter.py\<close> is idempotent; its result holds letters \<open>a-z\<close>
  only, the letters of the input in their order.
\<close>

lemma normalize_letters_idempotent:
  "normalize_letters U (normalize_letters U s) = normalize_letters U s
   \<and> list_all is_ascii_lower (normalize_letters U s)
   \<and> normalize_letters U s = map ascii_lower (filter ALPHA_RE s)"
proof -
  have low: "list_all is_ascii_lower (normalize_letters U s)"
    using normalize_letters_lower by (auto simp: list_all_iff)
  have "map ascii_lower (filter ALPHA_RE t) = t" if "list_all is_ascii_lower t" for t
    using that
    by (induction t) (auto simp: ALPHA_RE_def ascii_lower_def is_ascii_lower_def is_ascii_upper_def)
  from this[OF low] low show ?thesis by (simp add: normalize_letters_eq)
qed

text \<open>
  Claim C10 fails for the \<open>normalize_letters\<close> of \<open>filter_pairs.py\<close>, which tests
  \<open>ch.isalpha()\<close> where \<open>filter.py\<close> tests \<open>[A-Za-z]\<close>: \<open>U+0130\<close> is a letter and its
  lowercase form is \<open>i\<close> followed by the combining dot \<open>U+0307\<close>, which is not a letter, so
  normalising the result again removes the dot.
\<close>

theorem normalize_letters_pairs_dotted_capital:
  "normalize_letters_pairs ucd_rows [0x130] = [0x69, 0x307]
   \<and> normalize_letters_pairs ucd_rows (normalize_letters_pairs ucd_rows [0x130]) = [0x69]
   \<and> \<not> isalpha_ch ucd_rows 0x307"
  by (simp add: normalize_letters_pairs_def ucd_rows_def lower_row_def char_defs)

end
